theory Spec2Isabelle
  imports Main "HOL-Library.Word"
begin

section \<open>Python strings\<close>

text \<open>
  A Python \<^verbatim>\<open>str\<close> is modelled as a \<^typ>\<open>string\<close> whose characters are the code
  points 0 to 255 (\<^term>\<open>of_char c\<close> is the code point), so that \<^term>\<open>length\<close> is
  Python's \<^verbatim>\<open>len\<close>. The soft hyphen U+00AD that \<^verbatim>\<open>soften\<close> inserts lies in this
  range.
\<close>

datatype py_error = IndexError | RuntimeError | ValueError | KeyError

text \<open>\<^verbatim>\<open>str.isspace\<close> on the code points below 256.\<close>

definition is_space :: "char \<Rightarrow> bool" where
  "is_space c = (of_char c \<in> {9, 10, 11, 12, 13, 28, 29, 30, 31, 32, 133, 160 :: nat})"

text \<open>\<^verbatim>\<open>s.lstrip()\<close>, \<^verbatim>\<open>s.rstrip()\<close> and \<^verbatim>\<open>s.strip()\<close> without argument.\<close>

definition lstrip :: "string \<Rightarrow> string" where
  "lstrip s = dropWhile is_space s"

definition rstrip :: "string \<Rightarrow> string" where
  "rstrip s = rev (dropWhile is_space (rev s))"

definition strip :: "string \<Rightarrow> string" where
  "strip s = rstrip (lstrip s)"

text \<open>
  \<^verbatim>\<open>s.split()\<close> without argument: the maximal runs of non-whitespace characters, in
  order. \<open>cur\<close> is the word being read.
\<close>

fun split_acc :: "string \<Rightarrow> string \<Rightarrow> string list" where
  "split_acc cur [] = (if cur = [] then [] else [cur])"
| "split_acc cur (c # cs) =
     (if is_space c then (if cur = [] then split_acc [] cs else cur # split_acc [] cs)
      else split_acc (cur @ [c]) cs)"

definition split :: "string \<Rightarrow> string list" where
  "split s = split_acc [] s"

section \<open>Layout engine: greedy word wrap\<close>

text \<open>
  \<^verbatim>\<open>_lines_for_paragraph(text, chars_per_line)\<close>. The loop over \<^verbatim>\<open>words[1:]\<close> carries
  \<^verbatim>\<open>lines\<close> and \<^verbatim>\<open>cur\<close>; \<^verbatim>\<open>words[0]\<close> raises IndexError when the text is not empty
  but holds no word.
\<close>

fun wrap_loop :: "int \<Rightarrow> string list \<Rightarrow> string \<Rightarrow> string list \<Rightarrow> string list" where
  "wrap_loop n lines cur [] = lines @ [cur]"
| "wrap_loop n lines cur (w # ws) =
     (if int (length cur) + 1 + int (length w) \<le> n
      then wrap_loop n lines (cur @ '' '' @ w) ws
      else wrap_loop n (lines @ [cur]) w ws)"

definition lines_for_paragraph :: "string \<Rightarrow> int \<Rightarrow> py_error + string list" where
  "lines_for_paragraph text chars_per_line =
     (if text = [] then Inr [''''] else
      case split text of
        [] \<Rightarrow> Inl IndexError
      | w # ws \<Rightarrow> Inr (wrap_loop chars_per_line [] w ws))"

text \<open>
  The line estimate written inline in \<^verbatim>\<open>txt_to_pptx\<close>: \<^verbatim>\<open>cur\<close> starts empty, a word
  that does not fit closes the current line even when that line is still empty, and
  the last line is kept only when it is not empty.
\<close>

definition CHAR_PER_LINE :: nat where
  "CHAR_PER_LINE = 55"

fun pptx_wrap_loop :: "string list \<Rightarrow> string \<Rightarrow> string list \<Rightarrow> string list \<times> string" where
  "pptx_wrap_loop lines cur [] = (lines, cur)"
| "pptx_wrap_loop lines cur (w # ws) =
     (if length (strip (cur @ '' '' @ w)) \<le> CHAR_PER_LINE
      then pptx_wrap_loop lines (strip (cur @ '' '' @ w)) ws
      else pptx_wrap_loop (lines @ [cur]) w ws)"

definition pptx_lines :: "string \<Rightarrow> string list" where
  "pptx_lines tx =
     (case pptx_wrap_loop [] [] (split tx) of
        (lines, cur) \<Rightarrow> if cur \<noteq> [] then lines @ [cur] else lines)"

definition needed :: "string \<Rightarrow> nat" where
  "needed tx = max 1 (length (pptx_lines tx))"

section \<open>Slide renderer: softening long tokens\<close>

text \<open>
  \<^verbatim>\<open>soften\<close> of \<^verbatim>\<open>txt_to_pptx\<close>: \<^verbatim>\<open>re.sub(r"(\w{15})", "\\1\u00AD", text)\<close>. The scan goes
  from left to right; where fifteen word characters follow, they are copied with a soft
  hyphen after them and the scan goes on behind them, otherwise one character is copied.
  \<^verbatim>\<open>\w\<close> on a \<^verbatim>\<open>str\<close> pattern is \<^verbatim>\<open>str.isalnum\<close> or the underscore, here on the code
  points below 256.
\<close>

definition is_word_char :: "char \<Rightarrow> bool" where
  "is_word_char c =
     (let n = (of_char c :: nat) in
        (48 \<le> n \<and> n \<le> 57) \<or> (65 \<le> n \<and> n \<le> 90) \<or> n = 95 \<or> (97 \<le> n \<and> n \<le> 122)
        \<or> n \<in> {170, 178, 179, 181, 185, 186, 188, 189, 190}
        \<or> (192 \<le> n \<and> n \<le> 214) \<or> (216 \<le> n \<and> n \<le> 246) \<or> (248 \<le> n \<and> n \<le> 255))"

definition SOFT_HYPHEN :: char where
  "SOFT_HYPHEN = CHR 0xAD"

fun soften :: "string \<Rightarrow> string" where
  "soften [] = []"
| "soften (c # cs) =
     (if 15 \<le> length (c # cs) \<and> list_all is_word_char (take 15 (c # cs))
      then take 15 (c # cs) @ [SOFT_HYPHEN] @ soften (drop 14 cs)
      else c # soften cs)"

section \<open>Block parser\<close>

text \<open>
  The markup characters of \<^verbatim>\<open>_sanitize_inline_markup\<close>: asterisk, underscore and backtick.
  The regular expression \<^verbatim>\<open>.\<close> matches every character but the newline.
\<close>

definition BACKTICK :: char where
  "BACKTICK = CHR 0x60"

definition NEWLINE :: char where
  "NEWLINE = CHR 0x0A"

definition is_marker :: "char \<Rightarrow> bool" where
  "is_marker c = (c = CHR ''*'' \<or> c = CHR ''_'' \<or> c = BACKTICK)"

text \<open>
  The lazy group \<^verbatim>\<open>(.+?)\<close> followed by a closing delimiter: the group takes one
  character, then as few more as possible, none of them a newline, until the closing
  delimiter stands next. \<open>grp\<close> is the group read so far; the result is the group and
  the text behind the closing delimiter.
\<close>

fun find_close :: "string \<Rightarrow> string \<Rightarrow> string \<Rightarrow> (string \<times> string) option" where
  "find_close close grp [] = None"
| "find_close close grp (c # cs) =
     (if grp \<noteq> [] \<and> take (length close) (c # cs) = close
      then Some (grp, drop (length close) (c # cs))
      else if c = NEWLINE then None
      else find_close close (grp @ [c]) cs)"

text \<open>
  \<^verbatim>\<open>re.sub\<close> of an opening delimiter, the lazy group and the same closing delimiter by the
  group, for the patterns with the fixed delimiters \<^verbatim>\<open>**\<close>, \<^verbatim>\<open>__\<close>, \<^verbatim>\<open>*\<close> and \<^verbatim>\<open>_\<close>. The
  matches are found from left to right and do not overlap; where no match starts, one
  character is copied.
\<close>

function sub_delim :: "string \<Rightarrow> string \<Rightarrow> string" where
  "sub_delim d [] = []"
| "sub_delim d (c # cs) =
     (if take (length d) (c # cs) = d then
        (case find_close d [] (drop (length d) (c # cs)) of
           Some (grp, rest) \<Rightarrow> grp @ sub_delim d rest
         | None \<Rightarrow> c # sub_delim d cs)
      else c # sub_delim d cs)"
  by pat_completeness auto
text \<open>
  \<^verbatim>\<open>re.sub\<close> of a run of backticks, the lazy group and a run of backticks by the group. The opening
  run is greedy: it first takes all the backticks that follow; the closing run takes all
  the backticks behind the group. When no closing backtick can be reached from the whole
  run, the matcher gives backticks back: a run of at least three then matches with
  its last but one backtick as the group and its last backtick as the closing run.
\<close>

function sub_ticks :: "string \<Rightarrow> string" where
  "sub_ticks [] = []"
| "sub_ticks (c # cs) =
     (if c = BACKTICK then
        (case find_close [BACKTICK] [] (dropWhile (\<lambda>x. x = BACKTICK) cs) of
           Some (grp, rest) \<Rightarrow> grp @ sub_ticks (dropWhile (\<lambda>x. x = BACKTICK) rest)
         | None \<Rightarrow>
             if 3 \<le> length (takeWhile (\<lambda>x. x = BACKTICK) (c # cs))
             then [BACKTICK] @ sub_ticks (dropWhile (\<lambda>x. x = BACKTICK) cs)
             else c # sub_ticks cs)
      else c # sub_ticks cs)"
  by pat_completeness auto
text \<open>
  The last substitution deletes every run of markup characters, so every markup
  character; then the string is trimmed. The empty string is returned as it is.
\<close>

definition remove_markers :: "string \<Rightarrow> string" where
  "remove_markers s = filter (\<lambda>c. \<not> is_marker c) s"

definition sanitize_inline_markup :: "string \<Rightarrow> string" where
  "sanitize_inline_markup s =
     (if s = [] then s else
      strip (remove_markers (sub_delim ''_'' (sub_delim ''*'' (sub_delim ''__''
        (sub_delim ''**'' (sub_ticks s)))))))"
text \<open>
  A block is the dictionary with the keys \<^verbatim>\<open>type\<close> and \<^verbatim>\<open>text\<close>; the five types are the
  strings \<^verbatim>\<open>h1\<close>, \<^verbatim>\<open>h2\<close>, \<^verbatim>\<open>h3\<close>, \<^verbatim>\<open>bullet\<close> and \<^verbatim>\<open>p\<close>. \<^verbatim>\<open>str.splitlines\<close> breaks at the line
  boundaries below code point 256, a carriage return and the newline behind it counting as
  one. \<^verbatim>\<open>parse_lines\<close> is the loop of \<^verbatim>\<open>parse_txt_structure\<close> over the lines, \<^verbatim>\<open>parse_line\<close> its
  chain of prefix tests on a line that is not blank.
\<close>

datatype block_type = H1 | H2 | H3 | Bullet | P

record block =
  blk_type :: block_type
  blk_text :: string

definition startswith :: "string \<Rightarrow> string \<Rightarrow> bool" where
  "startswith s p = (take (length p) s = p)"

definition is_linebreak :: "char \<Rightarrow> bool" where
  "is_linebreak c = (of_char c \<in> {10, 11, 12, 13, 28, 29, 30, 133 :: nat})"

fun splitlines_acc :: "string \<Rightarrow> bool \<Rightarrow> string \<Rightarrow> string list" where
  "splitlines_acc cur after_cr [] = (if cur = [] then [] else [cur])"
| "splitlines_acc cur after_cr (c # cs) =
     (if after_cr \<and> c = NEWLINE then splitlines_acc cur False cs
      else if is_linebreak c then cur # splitlines_acc [] (c = CHR 0x0D) cs
      else splitlines_acc (cur @ [c]) False cs)"

definition splitlines :: "string \<Rightarrow> string list" where
  "splitlines s = splitlines_acc [] False s"

definition parse_line :: "string \<Rightarrow> block" where
  "parse_line stripped =
     (if startswith stripped ''# '' then \<lparr>blk_type = H1, blk_text = sanitize_inline_markup (drop 2 stripped)\<rparr>
      else if startswith stripped ''## '' then \<lparr>blk_type = H2, blk_text = sanitize_inline_markup (drop 3 stripped)\<rparr>
      else if startswith stripped ''### '' then \<lparr>blk_type = H3, blk_text = sanitize_inline_markup (drop 4 stripped)\<rparr>
      else if startswith stripped ''- '' then \<lparr>blk_type = Bullet, blk_text = sanitize_inline_markup (drop 2 stripped)\<rparr>
      else \<lparr>blk_type = P, blk_text = sanitize_inline_markup stripped\<rparr>)"

fun parse_lines :: "string list \<Rightarrow> block list" where
  "parse_lines [] = []"
| "parse_lines (raw_line # rest) =
     (if rstrip raw_line = [] then parse_lines rest
      else parse_line (lstrip (rstrip raw_line)) # parse_lines rest)"

definition parse_txt_structure :: "string \<Rightarrow> block list" where
  "parse_txt_structure txt = parse_lines (splitlines txt)"


section \<open>Palette selector\<close>

text \<open>
  \<^verbatim>\<open>hashlib.sha256(key.encode()).hexdigest()\<close>: the UTF-8 bytes of the key (a code point
  from 128 on takes two bytes), the SHA-256 padding to blocks of 64 bytes with the bit
  length in the last eight, the message schedule and the 64 rounds of the compression
  function on each block, and the eight state words written as 64 lower-case
  hexadecimal digits.
\<close>

definition encode :: "string \<Rightarrow> 8 word list" where
  "encode s =
     concat (map (\<lambda>c. let n = (of_char c :: nat) in
                    if n < 128 then [of_nat n]
                    else [of_nat (192 + n div 64), of_nat (128 + n mod 64)]) s)"

definition be64 :: "nat \<Rightarrow> 8 word list" where
  "be64 n = map (\<lambda>i. ucast (drop_bit (8 * (7 - i)) (of_nat n :: 64 word))) [0..<8]"

definition sha_pad :: "8 word list \<Rightarrow> 8 word list" where
  "sha_pad m = m @ [128] @ replicate ((119 - length m mod 64) mod 64) 0 @ be64 (8 * length m)"

definition be32 :: "8 word list \<Rightarrow> 32 word" where
  "be32 bs = foldl (\<lambda>acc b. acc * 256 + ucast b) 0 bs"

definition block_words :: "8 word list \<Rightarrow> 32 word list" where
  "block_words b = map (\<lambda>i. be32 (take 4 (drop (4 * i) b))) [0..<16]"

definition sha_blocks :: "8 word list \<Rightarrow> 32 word list list" where
  "sha_blocks p = map (\<lambda>i. block_words (take 64 (drop (64 * i) p))) [0..<length p div 64]"

definition ssig0 :: "32 word \<Rightarrow> 32 word" where
  "ssig0 x = xor (xor (word_rotr 7 x) (word_rotr 18 x)) (drop_bit 3 x)"

definition ssig1 :: "32 word \<Rightarrow> 32 word" where
  "ssig1 x = xor (xor (word_rotr 17 x) (word_rotr 19 x)) (drop_bit 10 x)"

definition bsig0 :: "32 word \<Rightarrow> 32 word" where
  "bsig0 x = xor (xor (word_rotr 2 x) (word_rotr 13 x)) (word_rotr 22 x)"

definition bsig1 :: "32 word \<Rightarrow> 32 word" where
  "bsig1 x = xor (xor (word_rotr 6 x) (word_rotr 11 x)) (word_rotr 25 x)"

definition ch :: "32 word \<Rightarrow> 32 word \<Rightarrow> 32 word \<Rightarrow> 32 word" where
  "ch e f g = xor (and e f) (and (not e) g)"

definition maj :: "32 word \<Rightarrow> 32 word \<Rightarrow> 32 word \<Rightarrow> 32 word" where
  "maj a b c = xor (xor (and a b) (and a c)) (and b c)"

fun schedule :: "nat \<Rightarrow> 32 word list \<Rightarrow> 32 word list" where
  "schedule 0 w = w"
| "schedule (Suc n) w =
     (let t = length w in
      schedule n (w @ [ssig1 (w ! (t - 2)) + w ! (t - 7) + ssig0 (w ! (t - 15)) + w ! (t - 16)]))"

definition sha_K :: "32 word list" where
  "sha_K =
    [1116352408, 1899447441, 3049323471, 3921009573, 961987163, 1508970993, 2453635748, 2870763221,
     3624381080, 310598401, 607225278, 1426881987, 1925078388, 2162078206, 2614888103, 3248222580,
     3835390401, 4022224774, 264347078, 604807628, 770255983, 1249150122, 1555081692, 1996064986,
     2554220882, 2821834349, 2952996808, 3210313671, 3336571891, 3584528711, 113926993, 338241895,
     666307205, 773529912, 1294757372, 1396182291, 1695183700, 1986661051, 2177026350, 2456956037,
     2730485921, 2820302411, 3259730800, 3345764771, 3516065817, 3600352804, 4094571909, 275423344,
     430227734, 506948616, 659060556, 883997877, 958139571, 1322822218, 1537002063, 1747873779,
     1955562222, 2024104815, 2227730452, 2361852424, 2428436474, 2756734187, 3204031479, 3329325298]"

definition sha_H0 :: "32 word list" where
  "sha_H0 = [1779033703, 3144134277, 1013904242, 2773480762,
            1359893119, 2600822924, 528734635, 1541459225]"

definition sha_round :: "32 word list \<Rightarrow> 32 word \<times> 32 word \<Rightarrow> 32 word list" where
  "sha_round s kw =
     (let a = s ! 0; b = s ! 1; c = s ! 2; d = s ! 3; e = s ! 4; f = s ! 5; g = s ! 6; h = s ! 7;
          t1 = h + bsig1 e + ch e f g + fst kw + snd kw; t2 = bsig0 a + maj a b c
      in [t1 + t2, a, b, c, d + t1, e, f, g])"

definition compress :: "32 word list \<Rightarrow> 32 word list \<Rightarrow> 32 word list" where
  "compress hs blk = map2 (+) hs (foldl sha_round hs (zip sha_K (schedule 48 blk)))"

definition sha256 :: "8 word list \<Rightarrow> 32 word list" where
  "sha256 m = foldl compress sha_H0 (sha_blocks (sha_pad m))"

definition hex_digit :: "nat \<Rightarrow> char" where
  "hex_digit n = ''0123456789abcdef'' ! n"

definition hex32 :: "32 word \<Rightarrow> string" where
  "hex32 w = map (\<lambda>i. hex_digit (unat (and (drop_bit (4 * (7 - i)) w) 15))) [0..<8]"

definition hexdigest :: "8 word list \<Rightarrow> string" where
  "hexdigest m = concat (map hex32 (sha256 m))"
text \<open>
  The table \<^verbatim>\<open>PALETTES\<close> in its insertion order, which is the order of
  \<^verbatim>\<open>list(PALETTES.keys())\<close>.
\<close>

type_synonym rgb = "nat \<times> nat \<times> nat"

record palette =
  bg :: rgb
  accent :: rgb
  accent2 :: rgb
  text_main :: rgb
  text_soft :: rgb

definition PALETTES :: "(string \<times> palette) list" where
  "PALETTES =
     [(''deep_sapphire'',
         \<lparr>bg = (6, 14, 38), accent = (82, 145, 255), accent2 = (255, 188, 66),
          text_main = (235, 244, 255), text_soft = (178, 196, 220)\<rparr>),
      (''slate_modern'',
         \<lparr>bg = (20, 22, 25), accent = (255, 131, 46), accent2 = (0, 165, 197),
          text_main = (240, 244, 248), text_soft = (168, 176, 188)\<rparr>),
      (''minimal_white'',
         \<lparr>bg = (250, 250, 250), accent = (0, 135, 102), accent2 = (0, 90, 140),
          text_main = (20, 28, 34), text_soft = (108, 118, 128)\<rparr>)]"

text \<open>
  \<^verbatim>\<open>int(h[:8], 16)\<close> on a string of hexadecimal digits; Python raises ValueError on the
  empty string and on any other character. \<^verbatim>\<open>pick_palette\<close> indexes the keys with the
  number modulo their count and looks the key up in the table.
\<close>

definition hex_value :: "char \<Rightarrow> nat option" where
  "hex_value c =
     (let n = (of_char c :: nat) in
      if 48 \<le> n \<and> n \<le> 57 then Some (n - 48)
      else if 97 \<le> n \<and> n \<le> 102 then Some (n - 87)
      else if 65 \<le> n \<and> n \<le> 70 then Some (n - 55)
      else None)"

fun int16_acc :: "nat \<Rightarrow> string \<Rightarrow> py_error + nat" where
  "int16_acc acc [] = Inr acc"
| "int16_acc acc (c # cs) =
     (case hex_value c of None \<Rightarrow> Inl ValueError | Some d \<Rightarrow> int16_acc (acc * 16 + d) cs)"

definition int16 :: "string \<Rightarrow> py_error + nat" where
  "int16 s = (if s = [] then Inl ValueError else int16_acc 0 s)"

definition pick_palette :: "string \<Rightarrow> py_error + palette" where
  "pick_palette key =
     (let h = hexdigest (encode key); keys = map fst PALETTES in
      case int16 (take 8 h) of
        Inl e \<Rightarrow> Inl e
      | Inr n \<Rightarrow>
          (case map_of PALETTES (keys ! (n mod length keys)) of
             None \<Rightarrow> Inl KeyError
           | Some p \<Rightarrow> Inr p))"

section \<open>Facts about strings\<close>

lemma split_acc_words:
  "\<forall>c\<in>set cur. \<not> is_space c \<Longrightarrow> w \<in> set (split_acc cur s) \<Longrightarrow>
     w \<noteq> [] \<and> (\<forall>c\<in>set w. \<not> is_space c)"
proof (induction s arbitrary: cur)
  case Nil
  then show ?case by (auto split: if_splits)
next
  case (Cons a s)
  show ?case
  proof (cases "is_space a")
    case True
    have nil: "\<forall>c\<in>set ([] :: string). \<not> is_space c" by simp
    from True Cons.prems(2) have "w \<in> set (split_acc [] s) \<or> (cur \<noteq> [] \<and> w = cur)"
      by (auto split: if_splits)
    then show ?thesis using Cons.IH [OF nil] Cons.prems(1) by blast
  next
    case False
    with Cons.prems have "\<forall>c\<in>set (cur @ [a]). \<not> is_space c"
      and "w \<in> set (split_acc (cur @ [a]) s)" by auto
    then show ?thesis by (rule Cons.IH)
  qed
qed

lemma split_word_nonempty: "w \<in> set (split s) \<Longrightarrow> w \<noteq> []"
  unfolding split_def using split_acc_words [of "[]" w s] by simp

lemma split_word_no_space: "w \<in> set (split s) \<Longrightarrow> c \<in> set w \<Longrightarrow> \<not> is_space c"
  unfolding split_def using split_acc_words [of "[]" w s] by simp

lemma strip_no_space_ends:
  "s \<noteq> [] \<Longrightarrow> \<not> is_space (hd s) \<Longrightarrow> \<not> is_space (last s) \<Longrightarrow> strip s = s"
proof -
  assume ne: "s \<noteq> []" and h: "\<not> is_space (hd s)" and l: "\<not> is_space (last s)"
  from ne h have 1: "dropWhile is_space s = s" by (cases s) auto
  from ne l have "dropWhile is_space (rev s) = rev s"
    by (cases "rev s") (auto simp: last_rev [symmetric] hd_rev)
  with 1 show ?thesis by (simp add: strip_def lstrip_def rstrip_def)
qed

section \<open>Wrap budget\<close>

lemma wrap_loop_budget:
  "\<forall>l\<in>set lines. int (length l) \<le> n \<or> l \<in> W \<Longrightarrow> int (length cur) \<le> n \<or> cur \<in> W \<Longrightarrow>
   set ws \<subseteq> W \<Longrightarrow> \<forall>l\<in>set (wrap_loop n lines cur ws). int (length l) \<le> n \<or> l \<in> W"
proof (induction ws arbitrary: lines cur)
  case Nil
  then show ?case by simp
next
  case (Cons w ws)
  from Cons.prems(3) have ws: "set ws \<subseteq> W" and w: "w \<in> W" by simp_all
  show ?case
  proof (cases "int (length cur) + 1 + int (length w) \<le> n")
    case True
    then have "int (length (cur @ '' '' @ w)) \<le> n \<or> cur @ '' '' @ w \<in> W" by simp
    from Cons.IH [OF Cons.prems(1) this ws] True show ?thesis by simp
  next
    case False
    from Cons.prems(1,2) have "\<forall>l\<in>set (lines @ [cur]). int (length l) \<le> n \<or> l \<in> W" by simp
    from Cons.IH [OF this _ ws, of w] w False show ?thesis by simp
  qed
qed

lemma pptx_wrap_loop_budget:
  "\<forall>l\<in>set lines. length l \<le> CHAR_PER_LINE \<or> l \<in> W \<Longrightarrow> length cur \<le> CHAR_PER_LINE \<or> cur \<in> W \<Longrightarrow>
   set ws \<subseteq> W \<Longrightarrow> pptx_wrap_loop lines cur ws = (lines', cur') \<Longrightarrow>
   (\<forall>l\<in>set lines'. length l \<le> CHAR_PER_LINE \<or> l \<in> W) \<and> (length cur' \<le> CHAR_PER_LINE \<or> cur' \<in> W)"
proof (induction ws arbitrary: lines cur)
  case Nil
  then show ?case by auto
next
  case (Cons w ws)
  show ?case
  proof (cases "length (strip (cur @ '' '' @ w)) \<le> CHAR_PER_LINE")
    case True
    with Cons.prems(4) have "pptx_wrap_loop lines (strip (cur @ '' '' @ w)) ws = (lines', cur')" by simp
    moreover from Cons.prems(3) have "set ws \<subseteq> W" by simp
    ultimately show ?thesis using Cons.IH [of lines "strip (cur @ '' '' @ w)"] Cons.prems(1) True by blast
  next
    case False
    with Cons.prems(4) have "pptx_wrap_loop (lines @ [cur]) w ws = (lines', cur')" by simp
    moreover from Cons.prems(3) have "set ws \<subseteq> W" "w \<in> W" by simp_all
    moreover from Cons.prems(1,2) have "\<forall>l\<in>set (lines @ [cur]). length l \<le> CHAR_PER_LINE \<or> l \<in> W" by auto
    ultimately show ?thesis using Cons.IH [of "lines @ [cur]" w] by blast
  qed
qed

text \<open>
  Claim C5. For every input text and every character budget (a budget is not negative),
  every line that the greedy word wrap produces is at most as long as the budget,
  or it is a single word of the text that is longer than the budget and is emitted
  unsplit. This holds for \<^verbatim>\<open>_lines_for_paragraph\<close> whenever it returns, and for the
  loop written inline in \<^verbatim>\<open>txt_to_pptx\<close> at its budget of 55 characters.
\<close>

theorem wrap_budget:
  assumes "0 \<le> n"
  shows "(\<forall>ls. lines_for_paragraph text n = Inr ls \<longrightarrow>
            (\<forall>l\<in>set ls. int (length l) \<le> n \<or> (l \<in> set (split text) \<and> n < int (length l))))
       \<and> (\<forall>l\<in>set (pptx_lines text).
            length l \<le> CHAR_PER_LINE \<or> (l \<in> set (split text) \<and> CHAR_PER_LINE < length l))"
proof (intro conjI allI impI)
  fix ls assume r: "lines_for_paragraph text n = Inr ls"
  show "\<forall>l\<in>set ls. int (length l) \<le> n \<or> (l \<in> set (split text) \<and> n < int (length l))"
  proof (cases "text = []")
    case True
    with r assms show ?thesis by (auto simp: lines_for_paragraph_def)
  next
    case False
    with r obtain w ws where sp: "split text = w # ws" and ls: "ls = wrap_loop n [] w ws"
      by (auto simp: lines_for_paragraph_def split: list.splits)
    have "\<forall>l\<in>set (wrap_loop n [] w ws). int (length l) \<le> n \<or> l \<in> set (split text)"
      by (rule wrap_loop_budget) (auto simp: sp)
    with ls show ?thesis by auto
  qed
next
  obtain lines cur where lc: "pptx_wrap_loop [] [] (split text) = (lines, cur)"
    by (cases "pptx_wrap_loop [] [] (split text)")
  have "(\<forall>l\<in>set lines. length l \<le> CHAR_PER_LINE \<or> l \<in> set (split text))
      \<and> (length cur \<le> CHAR_PER_LINE \<or> cur \<in> set (split text))"
    by (rule pptx_wrap_loop_budget [OF _ _ _ lc]) simp_all
  then show "\<forall>l\<in>set (pptx_lines text).
            length l \<le> CHAR_PER_LINE \<or> (l \<in> set (split text) \<and> CHAR_PER_LINE < length l)"
    by (auto simp: pptx_lines_def lc)
qed

theorem wrap_budget_witness:
  "(0::int) \<le> 5 \<and> lines_for_paragraph ''ab cdefgh i'' 5 = Inr [''ab'', ''cdefgh'', ''i'']
   \<and> ''cdefgh'' \<in> set (split ''ab cdefgh i'') \<and> 5 < int (length ''cdefgh'')"
proof -
  have h: "(0::int) \<le> 5" by simp
  have e: "lines_for_paragraph ''ab cdefgh i'' 5 = Inr [''ab'', ''cdefgh'', ''i'']"
    by (simp add: lines_for_paragraph_def split_def is_space_def)
  from wrap_budget [OF h, of "''ab cdefgh i''"] e
  have "int (length ''cdefgh'') \<le> 5
      \<or> (''cdefgh'' \<in> set (split ''ab cdefgh i'') \<and> 5 < int (length ''cdefgh''))"
    by simp
  with h e show ?thesis by simp
qed

section \<open>The two wrap loops\<close>

lemma strip_space_word:
  "w \<noteq> [] \<Longrightarrow> \<not> is_space (hd w) \<Longrightarrow> \<not> is_space (last w) \<Longrightarrow> strip ('' '' @ w) = w"
proof -
  assume w: "w \<noteq> []" "\<not> is_space (hd w)" "\<not> is_space (last w)"
  have sp: "is_space CHR '' ''" by (simp add: is_space_def)
  from w have "dropWhile is_space w = w" by (cases w) auto
  with sp have "lstrip ('' '' @ w) = w" by (simp add: lstrip_def)
  moreover from w have "strip w = w" by (rule strip_no_space_ends)
  moreover from w have "lstrip w = w" by (cases w) (auto simp: lstrip_def)
  ultimately show ?thesis by (simp add: strip_def)
qed

lemma strip_join:
  "cur \<noteq> [] \<Longrightarrow> \<not> is_space (hd cur) \<Longrightarrow> w \<noteq> [] \<Longrightarrow> \<not> is_space (last w) \<Longrightarrow>
   strip (cur @ '' '' @ w) = cur @ '' '' @ w"
  by (rule strip_no_space_ends) auto

lemma pptx_wrap_loop_eq:
  "\<forall>w\<in>set ws. w \<noteq> [] \<and> \<not> is_space (hd w) \<and> \<not> is_space (last w) \<Longrightarrow>
   cur \<noteq> [] \<Longrightarrow> \<not> is_space (hd cur) \<Longrightarrow> \<not> is_space (last cur) \<Longrightarrow>
   pptx_wrap_loop lines cur ws = (lines', cur') \<Longrightarrow>
   cur' \<noteq> [] \<and> wrap_loop (int CHAR_PER_LINE) lines cur ws = lines' @ [cur']"
proof (induction ws arbitrary: lines cur)
  case Nil
  then show ?case by simp
next
  case (Cons w ws)
  from Cons.prems(1) have w: "w \<noteq> []" "\<not> is_space (hd w)" "\<not> is_space (last w)"
    and ws: "\<forall>w\<in>set ws. w \<noteq> [] \<and> \<not> is_space (hd w) \<and> \<not> is_space (last w)" by simp_all
  have j: "strip (cur @ '' '' @ w) = cur @ '' '' @ w"
    using Cons.prems(2,3) w(1,3) by (rule strip_join)
  show ?case
  proof (cases "length (cur @ '' '' @ w) \<le> CHAR_PER_LINE")
    case True
    with Cons.prems(5) j have r: "pptx_wrap_loop lines (cur @ '' '' @ w) ws = (lines', cur')" by simp
    have c: "cur @ '' '' @ w \<noteq> []" "\<not> is_space (hd (cur @ '' '' @ w))"
      "\<not> is_space (last (cur @ '' '' @ w))"
      using Cons.prems(2,3) w by simp_all
    from Cons.IH [OF ws c r] True show ?thesis by simp
  next
    case False
    with Cons.prems(5) j have r: "pptx_wrap_loop (lines @ [cur]) w ws = (lines', cur')" by simp
    from Cons.IH [OF ws w r] False show ?thesis by simp
  qed
qed

lemma split_words_ends:
  "w \<in> set (split s) \<Longrightarrow> w \<noteq> [] \<and> \<not> is_space (hd w) \<and> \<not> is_space (last w)"
proof -
  assume a: "w \<in> set (split s)"
  then have ne: "w \<noteq> []" by (rule split_word_nonempty)
  then have "hd w \<in> set w" "last w \<in> set w" by simp_all
  with a ne show ?thesis using split_word_no_space by blast
qed

text \<open>
  Where the two loops meet. On one and the same string whose first word, if there is
  one, is at most 55 characters long, \<^verbatim>\<open>_lines_for_paragraph\<close> at the budget of 55
  returns the lines of the inline loop as soon as the string holds a word, and the
  inline count is the number of its lines whenever it returns.
\<close>

lemma wrap_loops_agree:
  assumes "case split tx of [] \<Rightarrow> True | w # ws \<Rightarrow> length w \<le> CHAR_PER_LINE"
  shows "(split tx \<noteq> [] \<longrightarrow> lines_for_paragraph tx (int CHAR_PER_LINE) = Inr (pptx_lines tx))
       \<and> (\<forall>ls. lines_for_paragraph tx (int CHAR_PER_LINE) = Inr ls \<longrightarrow> needed tx = length ls)"
proof (cases "split tx")
  case Nil
  have "pptx_lines tx = []" by (simp add: pptx_lines_def Nil)
  then have "needed tx = 1" by (simp add: needed_def)
  then show ?thesis by (auto simp: Nil lines_for_paragraph_def)
next
  case (Cons w ws)
  with assms have le: "length w \<le> CHAR_PER_LINE" by simp
  have ne: "tx \<noteq> []" using Cons by (auto simp: split_def)
  have w: "w \<noteq> []" "\<not> is_space (hd w)" "\<not> is_space (last w)"
    using split_words_ends [of w tx] Cons by simp_all
  have ws: "\<forall>w\<in>set ws. w \<noteq> [] \<and> \<not> is_space (hd w) \<and> \<not> is_space (last w)"
    using split_words_ends [of _ tx] Cons by simp
  obtain lines cur where lc: "pptx_wrap_loop [] w ws = (lines, cur)"
    by (cases "pptx_wrap_loop [] w ws")
  from pptx_wrap_loop_eq [OF ws w lc]
  have cur: "cur \<noteq> []" and eq: "wrap_loop (int CHAR_PER_LINE) [] w ws = lines @ [cur]" by simp_all
  have "strip ([] @ '' '' @ w) = w" using strip_space_word [OF w] by simp
  with le lc have "pptx_wrap_loop [] [] (w # ws) = (lines, cur)" by simp
  with cur have p: "pptx_lines tx = lines @ [cur]" by (simp add: pptx_lines_def Cons)
  from ne eq have l: "lines_for_paragraph tx (int CHAR_PER_LINE) = Inr (lines @ [cur])"
    by (simp add: lines_for_paragraph_def Cons)
  from p l show ?thesis by (simp add: needed_def)
qed

text \<open>
  Claim C4. The needed-line count of the slide renderer is meant to be the number of
  lines of the shared wrap function at the budget of 55, with the same wrapped lines.
  The code does not do this: on a block text that is one word of 56 characters, which
  \<^verbatim>\<open>soften\<close> leaves as it is, the loop written inline in \<^verbatim>\<open>txt_to_pptx\<close> closes its
  still empty current line before the word, so it yields an empty line and the word
  and counts two lines, where \<^verbatim>\<open>_lines_for_paragraph\<close> yields the word alone, one line.
\<close>

theorem wrap_loops_differ:
  "soften (replicate 56 CHR ''-'') = replicate 56 CHR ''-''
   \<and> lines_for_paragraph (replicate 56 CHR ''-'') (int CHAR_PER_LINE) = Inr [replicate 56 CHR ''-'']
   \<and> pptx_lines (replicate 56 CHR ''-'') = ['''', replicate 56 CHR ''-'']
   \<and> needed (replicate 56 CHR ''-'') = 2"
proof -
  have r: "replicate 56 CHR ''-'' = ''--------------------------------------------------------''"
    by code_simp
  have 1: "soften ''--------------------------------------------------------''
      = ''--------------------------------------------------------''"
    by (simp add: is_word_char_def)
  have s: "split ''--------------------------------------------------------''
      = [''--------------------------------------------------------'']"
    by (simp add: split_def is_space_def)
  have 2: "lines_for_paragraph ''--------------------------------------------------------''
      (int CHAR_PER_LINE) = Inr [''--------------------------------------------------------'']"
    by (simp add: lines_for_paragraph_def s)
  have st: "strip '' --------------------------------------------------------''
      = ''--------------------------------------------------------''"
    by (simp add: strip_def lstrip_def rstrip_def is_space_def)
  have 3: "pptx_lines ''--------------------------------------------------------''
      = ['''', ''--------------------------------------------------------'']"
    by (simp add: pptx_lines_def s st CHAR_PER_LINE_def)
  from 3 have 4: "needed ''--------------------------------------------------------'' = 2"
    by (simp add: needed_def)
  from 1 2 3 4 show ?thesis unfolding r by blast
qed

section \<open>The sanitizer removes markup characters only\<close>

lemma find_close_split:
  "find_close close grp s = Some (g, rest) \<Longrightarrow> grp @ s = g @ close @ rest"
proof (induction s arbitrary: grp)
  case Nil
  then show ?case by simp
next
  case (Cons c cs)
  show ?case
  proof (cases "grp \<noteq> [] \<and> take (length close) (c # cs) = close")
    case True
    with Cons.prems have "g = grp" "rest = drop (length close) (c # cs)" by simp_all
    moreover from True have "c # cs = close @ drop (length close) (c # cs)"
      by (metis append_take_drop_id)
    ultimately show ?thesis by simp
  next
    case False
    with Cons.prems have "c \<noteq> NEWLINE" and "find_close close (grp @ [c]) cs = Some (g, rest)"
      by (auto split: if_splits)
    from Cons.IH [OF this(2)] show ?thesis by simp
  qed
qed

lemma find_close_nonempty:
  "find_close close grp s = Some (g, rest) \<Longrightarrow> g \<noteq> []"
  by (induction s arbitrary: grp) (auto split: if_splits)

lemma find_close_shorter:
  "find_close close [] s = Some (g, rest) \<Longrightarrow> length rest < length s"
proof -
  assume a: "find_close close [] s = Some (g, rest)"
  from find_close_split [OF a] have "length s = length g + length close + length rest"
    by (metis append_Nil length_append add.assoc)
  moreover from find_close_nonempty [OF a] have "0 < length g" by simp
  ultimately show ?thesis by simp
qed

termination sub_delim
proof (relation "measure (\<lambda>(d, s). length s)")
  show "wf (measure (\<lambda>(d, s). length s))" by simp
next
  fix d :: string and c cs x2 x y
  assume "take (length d) (c # cs) = d"
    and "find_close d [] (drop (length d) (c # cs)) = Some x2" and "(x, y) = x2"
  then have "find_close d [] (drop (length d) (c # cs)) = Some (x, y)" by simp
  from find_close_shorter [OF this] have "length y < length (c # cs)" by simp
  then show "((d, y), d, c # cs) \<in> measure (\<lambda>(d, s). length s)" by simp
qed simp_all

termination sub_ticks
proof (relation "measure length")
  show "wf (measure length)" by simp
next
  fix c :: char and cs x2 x y
  assume "c = BACKTICK"
    and "find_close [BACKTICK] [] (dropWhile (\<lambda>x. x = BACKTICK) cs) = Some x2" and "(x, y) = x2"
  then have "find_close [BACKTICK] [] (dropWhile (\<lambda>x. x = BACKTICK) cs) = Some (x, y)" by simp
  from find_close_shorter [OF this]
  have "length y < length (dropWhile (\<lambda>x. x = BACKTICK) cs)" .
  moreover have "length (dropWhile (\<lambda>x. x = BACKTICK) y) \<le> length y"
    by (rule length_dropWhile_le)
  moreover have "length (dropWhile (\<lambda>x. x = BACKTICK) cs) \<le> length cs"
    by (rule length_dropWhile_le)
  ultimately show "(dropWhile (\<lambda>x. x = BACKTICK) y, c # cs) \<in> measure length" by simp
next
  fix c :: char and cs
  have "length (dropWhile (\<lambda>x. x = BACKTICK) cs) \<le> length cs"
    by (rule length_dropWhile_le)
  then show "(dropWhile (\<lambda>x. x = BACKTICK) cs, c # cs) \<in> measure length" by simp
qed simp_all

lemma filter_sub_delim:
  "\<forall>c\<in>set d. is_marker c \<Longrightarrow> remove_markers (sub_delim d s) = remove_markers s"
proof (induction d s rule: sub_delim.induct)
  case (1 d)
  then show ?case by simp
next
  case (2 d c cs)
  show ?case
  proof (cases "take (length d) (c # cs) = d")
    case False
    with 2 show ?thesis by (simp add: remove_markers_def)
  next
    case True
    show ?thesis
    proof (cases "find_close d [] (drop (length d) (c # cs))")
      case None
      with True 2 show ?thesis by (simp add: remove_markers_def)
    next
      case (Some a)
      obtain grp rest where a: "a = (grp, rest)" by (cases a)
      from find_close_split [OF Some [unfolded a]]
      have "drop (length d) (c # cs) = grp @ d @ rest" by simp
      with True have whole: "c # cs = d @ grp @ d @ rest"
        by (metis append_take_drop_id)
      have d: "remove_markers d = []" using "2.prems" by (simp add: remove_markers_def)
      have "remove_markers (sub_delim d rest) = remove_markers rest"
        using "2.IH"(2) [OF True Some a [symmetric]] "2.prems" by simp
      moreover have "sub_delim d (c # cs) = grp @ sub_delim d rest"
        using True Some a by simp
      moreover have "remove_markers (c # cs) = remove_markers grp @ remove_markers rest"
        unfolding whole using d by (simp add: remove_markers_def)
      ultimately show ?thesis by (simp add: remove_markers_def)
    qed
  qed
qed

lemma remove_markers_dropWhile_tick:
  "remove_markers (dropWhile (\<lambda>x. x = BACKTICK) s) = remove_markers s"
  by (induction s) (auto simp: remove_markers_def is_marker_def)

lemma filter_sub_ticks: "remove_markers (sub_ticks s) = remove_markers s"
proof (induction s rule: sub_ticks.induct)
  case 1
  then show ?case by simp
next
  case (2 c cs)
  show ?case
  proof (cases "c = BACKTICK")
    case False
    with 2 show ?thesis by (simp add: remove_markers_def)
  next
    case True
    then have c: "remove_markers (c # cs) = remove_markers cs"
      by (simp add: remove_markers_def is_marker_def)
    show ?thesis
    proof (cases "find_close [BACKTICK] [] (dropWhile (\<lambda>x. x = BACKTICK) cs)")
      case None
      show ?thesis
      proof (cases "3 \<le> length (takeWhile (\<lambda>x. x = BACKTICK) (c # cs))")
        case yes: True
        have "remove_markers (sub_ticks (dropWhile (\<lambda>x. x = BACKTICK) cs))
            = remove_markers (dropWhile (\<lambda>x. x = BACKTICK) cs)"
          using "2.IH"(1) [OF True None yes] .
        moreover have "sub_ticks (c # cs) = [BACKTICK] @ sub_ticks (dropWhile (\<lambda>x. x = BACKTICK) cs)"
          using True None yes by simp
        ultimately show ?thesis
          using c by (simp add: remove_markers_dropWhile_tick) (simp add: remove_markers_def is_marker_def)
      next
        case no: False
        have "remove_markers (sub_ticks cs) = remove_markers cs"
          using "2.IH"(2) [OF True None no] .
        moreover have "sub_ticks (c # cs) = c # sub_ticks cs"
          using True None no by simp
        ultimately show ?thesis using True by (simp add: remove_markers_def is_marker_def)
      qed
    next
      case (Some a)
      obtain grp rest where a: "a = (grp, rest)" by (cases a)
      from find_close_split [OF Some [unfolded a]]
      have sp: "dropWhile (\<lambda>x. x = BACKTICK) cs = grp @ [BACKTICK] @ rest" by simp
      have "remove_markers (sub_ticks (dropWhile (\<lambda>x. x = BACKTICK) rest))
          = remove_markers (dropWhile (\<lambda>x. x = BACKTICK) rest)"
        using "2.IH"(3) [OF True Some a [symmetric]] .
      then have ih: "remove_markers (sub_ticks (dropWhile (\<lambda>x. x = BACKTICK) rest)) = remove_markers rest"
        by (simp add: remove_markers_dropWhile_tick)
      have "remove_markers cs = remove_markers (grp @ [BACKTICK] @ rest)"
        using remove_markers_dropWhile_tick [of cs] sp by simp
      then have "remove_markers (c # cs) = remove_markers grp @ remove_markers rest"
        using c by (simp add: remove_markers_def is_marker_def)
      moreover have "sub_ticks (c # cs) = grp @ sub_ticks (dropWhile (\<lambda>x. x = BACKTICK) rest)"
        using True Some a by simp
      ultimately show ?thesis using ih by (simp add: remove_markers_def)
    qed
  qed
qed

lemma sanitize_eq: "sanitize_inline_markup s = strip (remove_markers s)"
proof (cases "s = []")
  case True
  then show ?thesis
    by (simp add: sanitize_inline_markup_def remove_markers_def strip_def lstrip_def rstrip_def)
next
  case False
  have m: "\<forall>c\<in>set ''_''. is_marker c" "\<forall>c\<in>set ''*''. is_marker c"
    "\<forall>c\<in>set ''__''. is_marker c" "\<forall>c\<in>set ''**''. is_marker c"
    by (simp_all add: is_marker_def)
  from False show ?thesis
    by (simp add: sanitize_inline_markup_def filter_sub_delim [OF m(1)] filter_sub_delim [OF m(2)]
        filter_sub_delim [OF m(3)] filter_sub_delim [OF m(4)] filter_sub_ticks)
qed
lemma strip_ends:
  assumes "strip s \<noteq> []"
  shows "\<not> is_space (hd (strip s)) \<and> \<not> is_space (last (strip s))"
proof -
  define t where "t = dropWhile is_space s"
  define u where "u = dropWhile is_space (rev t)"
  have st: "strip s = rev u" by (simp add: strip_def lstrip_def rstrip_def t_def u_def)
  with assms have u: "u \<noteq> []" by simp
  then have "\<not> is_space (hd u)" unfolding u_def by (rule hd_dropWhile)
  with u have l: "\<not> is_space (last (strip s))" by (simp add: st last_rev)
  have "rev t = takeWhile is_space (rev t) @ u" by (simp add: u_def)
  then have "rev (rev t) = rev (takeWhile is_space (rev t) @ u)" by simp
  then have t: "t = rev u @ rev (takeWhile is_space (rev t))" by simp
  with u have "hd t = hd (rev u)" by (metis hd_append2 rev_is_Nil_conv)
  moreover from t u have "t \<noteq> []" by auto
  then have "\<not> is_space (hd t)" unfolding t_def by (rule hd_dropWhile)
  ultimately have "\<not> is_space (hd (strip s))" by (simp add: st)
  with l show ?thesis by simp
qed

lemma strip_idem: "strip (strip s) = strip s"
proof (cases "strip s = []")
  case True
  have "strip [] = []" by (simp add: strip_def lstrip_def rstrip_def)
  with True show ?thesis by simp
next
  case False
  with strip_ends [OF False] show ?thesis by (simp add: strip_no_space_ends)
qed

lemma set_strip: "set (strip s) \<subseteq> set s"
proof -
  have "set (strip s) \<subseteq> set (dropWhile is_space s)"
    using set_dropWhileD [of _ is_space "rev (dropWhile is_space s)"]
    by (auto simp: strip_def lstrip_def rstrip_def)
  also have "\<dots> \<subseteq> set s" using set_dropWhileD [of _ is_space s] by auto
  finally show ?thesis .
qed


lemma remove_markers_strip:
  "remove_markers (strip (remove_markers s)) = strip (remove_markers s)"
proof -
  define r where "r = remove_markers s"
  define t where "t = strip r"
  have "\<And>c. c \<in> set r \<Longrightarrow> \<not> is_marker c" by (simp add: r_def remove_markers_def)
  moreover have "set t \<subseteq> set r" unfolding t_def by (rule set_strip)
  ultimately have "\<And>c. c \<in> set t \<Longrightarrow> \<not> is_marker c" by (meson subsetD)
  then have "filter (\<lambda>c. \<not> is_marker c) t = t" by (induction t) simp_all
  then have "remove_markers t = t" by (simp only: remove_markers_def)
  then show ?thesis by (simp only: t_def r_def)
qed


lemma parse_lines_blocks:
  "b \<in> set (parse_lines ls) \<Longrightarrow>
   \<exists>raw\<in>set ls. rstrip raw \<noteq> [] \<and> b = parse_line (lstrip (rstrip raw))"
proof (induction ls)
  case Nil
  then show ?case by simp
next
  case (Cons raw ls)
  show ?case
  proof (cases "rstrip raw = []")
    case True
    with Cons show ?thesis by simp
  next
    case False
    with Cons.prems have "b = parse_line (lstrip (rstrip raw)) \<or> b \<in> set (parse_lines ls)" by simp
    with False Cons.IH show ?thesis by auto
  qed
qed

lemma parse_line_payload:
  "\<exists>k\<le>4. blk_text (parse_line st) = sanitize_inline_markup (drop k st)"
proof -
  have "blk_text (parse_line st) = sanitize_inline_markup (drop 0 st)
      \<or> blk_text (parse_line st) = sanitize_inline_markup (drop 2 st)
      \<or> blk_text (parse_line st) = sanitize_inline_markup (drop 3 st)
      \<or> blk_text (parse_line st) = sanitize_inline_markup (drop 4 st)"
    by (simp add: parse_line_def)
  then show ?thesis
  proof (elim disjE)
    assume "blk_text (parse_line st) = sanitize_inline_markup (drop 0 st)"
    then show ?thesis by (intro exI [of _ 0]) simp
  next
    assume "blk_text (parse_line st) = sanitize_inline_markup (drop 2 st)"
    then show ?thesis by (intro exI [of _ 2]) simp
  next
    assume "blk_text (parse_line st) = sanitize_inline_markup (drop 3 st)"
    then show ?thesis by (intro exI [of _ 3]) simp
  next
    assume "blk_text (parse_line st) = sanitize_inline_markup (drop 4 st)"
    then show ?thesis by (intro exI [of _ 4]) simp
  qed
qed

text \<open>
  Claim C9. The markup-stripping transform is idempotent: for every string,
  applying \<^verbatim>\<open>_sanitize_inline_markup\<close> twice gives what applying it once gives.
\<close>

theorem sanitize_idempotent:
  "sanitize_inline_markup (sanitize_inline_markup s) = sanitize_inline_markup s"
  by (simp add: sanitize_eq remove_markers_strip strip_idem)

text \<open>
  Claim C10. For every input text, the text of every block that the block parser
  produces has no leading and no trailing whitespace: trimming it changes nothing, and
  when it is not empty its first and its last character are not whitespace.
\<close>

theorem block_text_trimmed:
  assumes "b \<in> set (parse_txt_structure txt)"
  shows "strip (blk_text b) = blk_text b
       \<and> (blk_text b = [] \<or> (\<not> is_space (hd (blk_text b)) \<and> \<not> is_space (last (blk_text b))))"
proof -
  from assms have "b \<in> set (parse_lines (splitlines txt))" by (simp add: parse_txt_structure_def)
  from parse_lines_blocks [OF this] obtain raw where "b = parse_line (lstrip (rstrip raw))"
    by blast
  with parse_line_payload [of "lstrip (rstrip raw)"]
  obtain k where "blk_text b = sanitize_inline_markup (drop k (lstrip (rstrip raw)))" by blast
  then have x: "blk_text b = strip (remove_markers (drop k (lstrip (rstrip raw))))"
    by (simp only: sanitize_eq)
  have "strip (blk_text b) = blk_text b" unfolding x by (rule strip_idem)
  moreover have "blk_text b = [] \<or> (\<not> is_space (hd (blk_text b)) \<and> \<not> is_space (last (blk_text b)))"
    unfolding x using strip_ends by blast
  ultimately show ?thesis by (rule conjI)
qed

theorem block_text_trimmed_witness:
  "\<lparr>blk_type = Bullet, blk_text = ''a b''\<rparr> \<in> set (parse_txt_structure ''  - _a_ b  '')
   \<and> strip ''a b'' = ''a b'' \<and> \<not> is_space (hd ''a b'') \<and> \<not> is_space (last ''a b'')"
proof -
  have p: "parse_txt_structure ''  - _a_ b  '' = [\<lparr>blk_type = Bullet, blk_text = ''a b''\<rparr>]"
    by (simp add: parse_txt_structure_def splitlines_def is_linebreak_def NEWLINE_def
        rstrip_def lstrip_def is_space_def parse_line_def startswith_def sanitize_eq
        remove_markers_def is_marker_def strip_def BACKTICK_def)
  then have m: "\<lparr>blk_type = Bullet, blk_text = ''a b''\<rparr> \<in> set (parse_txt_structure ''  - _a_ b  '')"
    by simp
  from block_text_trimmed [OF m] have "strip ''a b'' = ''a b''"
    and "''a b'' = [] \<or> (\<not> is_space (hd ''a b'') \<and> \<not> is_space (last ''a b''))" by simp_all
  with m show ?thesis by simp
qed




section \<open>Palette selection\<close>

lemma sha_round_length: "length (sha_round s kw) = 8"
  by (simp add: sha_round_def Let_def)

lemma foldl_sha_round_length: "length s = 8 \<Longrightarrow> length (foldl sha_round s kws) = 8"
  by (induction kws arbitrary: s) (simp_all add: sha_round_length)

lemma compress_length: "length hs = 8 \<Longrightarrow> length (compress hs blk) = 8"
  by (simp add: compress_def foldl_sha_round_length)

lemma foldl_compress_length: "length hs = 8 \<Longrightarrow> length (foldl compress hs blks) = 8"
  by (induction blks arbitrary: hs) (simp_all add: compress_length)

lemma sha256_length: "length (sha256 m) = 8"
  by (simp add: sha256_def sha_H0_def foldl_compress_length)

lemma hex_digit_value: "n < 16 \<Longrightarrow> hex_value (hex_digit n) \<noteq> None"
proof -
  assume n: "n < 16"
  have "list_all (\<lambda>k. hex_value (hex_digit k) \<noteq> None) [0..<16]" by code_simp
  then have "\<forall>k\<in>set [0..<16]. hex_value (hex_digit k) \<noteq> None"
    unfolding list_all_iff .
  moreover from n have "n \<in> set [0..<16]" by simp
  ultimately show ?thesis by (rule bspec)
qed

lemma hex32_digits: "c \<in> set (hex32 w) \<Longrightarrow> hex_value c \<noteq> None"
proof -
  assume "c \<in> set (hex32 w)"
  then obtain i where c: "c = hex_digit (unat (and (drop_bit (4 * (7 - i)) w) 15))"
    by (auto simp: hex32_def)
  have "and (drop_bit (4 * (7 - i)) w) 15 \<le> 15" by (rule word_and_le1)
  then have "unat (and (drop_bit (4 * (7 - i)) w) 15) < 16"
    by (simp add: word_le_nat_alt)
  then show ?thesis unfolding c by (rule hex_digit_value)
qed

lemma hex32_length: "length (hex32 w) = 8"
  by (simp add: hex32_def)

lemma int16_acc_ok: "\<forall>c\<in>set s. hex_value c \<noteq> None \<Longrightarrow> \<exists>n. int16_acc acc s = Inr n"
  by (induction s arbitrary: acc) (auto split: option.splits)

lemma take8_hexdigest: "\<exists>w. take 8 (hexdigest m) = hex32 w"
proof -
  from sha256_length [of m] obtain w ws where "sha256 m = w # ws"
    by (cases "sha256 m") auto
  then have "take 8 (hexdigest m) = hex32 w" by (simp add: hexdigest_def hex32_length)
  then show ?thesis ..
qed

lemma int16_digest: "\<exists>n. int16 (take 8 (hexdigest m)) = Inr n"
proof -
  from take8_hexdigest obtain w where w: "take 8 (hexdigest m) = hex32 w" ..
  have "hex32 w \<noteq> []" using hex32_length [of w] by auto
  moreover have "\<exists>n. int16_acc 0 (hex32 w) = Inr n"
    by (rule int16_acc_ok) (simp add: hex32_digits)
  ultimately show ?thesis by (simp add: int16_def w)
qed

lemma palette_lookup:
  "i < 3 \<Longrightarrow> map_of PALETTES (fst (PALETTES ! i)) = Some (snd (PALETTES ! i))"
proof -
  assume "i < 3"
  then have "i = 0 \<or> i = 1 \<or> i = 2" by arith
  then show ?thesis by (elim disjE) (simp_all add: PALETTES_def)
qed

lemma pick_palette_index:
  "\<exists>i<3. pick_palette key = Inr (snd (PALETTES ! i))"
proof -
  from int16_digest obtain n where n: "int16 (take 8 (hexdigest (encode key))) = Inr n" ..
  have l: "length PALETTES = 3" by (simp add: PALETTES_def)
  have i: "n mod 3 < 3" by simp
  have "pick_palette key = Inr (snd (PALETTES ! (n mod 3)))"
    by (simp add: pick_palette_def Let_def n l palette_lookup [OF i])
  with i show ?thesis by blast
qed

lemma demo_digest: "take 8 (hexdigest (encode ''Demo'')) = ''8a2cc067''"
  by code_simp

lemma pick_palette_Demo:
  "pick_palette ''Demo'' =
     Inr \<lparr>bg = (6, 14, 38), accent = (82, 145, 255), accent2 = (255, 188, 66),
          text_main = (235, 244, 255), text_soft = (178, 196, 220)\<rparr>"
proof -
  have i: "int16 ''8a2cc067'' = Inr 2318188647"
    by (simp add: int16_def hex_value_def)
  have m: "(2318188647 :: nat) mod 3 = 0" by simp
  show ?thesis
    by (simp add: pick_palette_def Let_def demo_digest i PALETTES_def m)
qed

text \<open>
  Claim C7. Palette selection is a function of the title string alone: two calls with
  the same title return the same result, and that result is never an error but one
  of the palettes of the fixed table.
\<close>

theorem pick_palette_deterministic:
  assumes "t1 = t2"
  shows "pick_palette t1 = pick_palette t2
       \<and> (\<exists>name p. (name, p) \<in> set PALETTES \<and> pick_palette t1 = Inr p)"
proof -
  from pick_palette_index [of t1] obtain i where i: "i < 3"
    and p: "pick_palette t1 = Inr (snd (PALETTES ! i))" by blast
  have "length PALETTES = 3" by (simp add: PALETTES_def)
  with i have "PALETTES ! i \<in> set PALETTES" by simp
  then have "(fst (PALETTES ! i), snd (PALETTES ! i)) \<in> set PALETTES" by simp
  with p assms show ?thesis by blast
qed

theorem pick_palette_deterministic_witness:
  "''Demo'' = ''Demo'' \<and> pick_palette ''Demo'' = pick_palette ''Demo''
   \<and> (\<exists>name p. (name, p) \<in> set PALETTES \<and> pick_palette ''Demo'' = Inr p)
   \<and> pick_palette ''Demo'' =
       Inr \<lparr>bg = (6, 14, 38), accent = (82, 145, 255), accent2 = (255, 188, 66),
            text_main = (235, 244, 255), text_soft = (178, 196, 220)\<rparr>"
proof -
  have e: "''Demo'' = ''Demo''" by simp
  from pick_palette_deterministic [OF e] pick_palette_Demo show ?thesis by simp
qed

end
